theory Spec2Isabelle
  imports Main
begin

section \<open>Text formatting used by the downloader\<close>

text \<open>
  Python renders integers in decimal inside f-strings (\<^verbatim>\<open>f"HTTP {status}"\<close>,
  \<^verbatim>\<open>f"Page {page} timeout"\<close>) and pads them with zeros for \<^verbatim>\<open>f"{i:06d}"\<close>.
  All integers rendered by the downloader are non-negative.
\<close>

definition digit_char :: "nat \<Rightarrow> char" where
  "digit_char d = ''0123456789'' ! d"

fun str_nat :: "nat \<Rightarrow> string" where
  "str_nat n = (if n < 10 then [digit_char n] else str_nat (n div 10) @ [digit_char (n mod 10)])"

declare str_nat.simps [simp del]

definition str_int :: "int \<Rightarrow> string" where
  "str_int i = (if i < 0 then CHR ''-'' # str_nat (nat (- i)) else str_nat (nat i))"

text \<open>\<^verbatim>\<open>f"{i:06d}"\<close> for a non-negative \<open>i\<close>: at least six characters, zeros on the left.\<close>

definition fmt06 :: "nat \<Rightarrow> string" where
  "fmt06 i = replicate (6 - length (str_nat i)) CHR ''0'' @ str_nat i"

text \<open>Reading a decimal string back (used only to state properties of keys).\<close>

definition digit_val :: "char \<Rightarrow> nat" where
  "digit_val c = of_char c - 48"

definition is_digit :: "char \<Rightarrow> bool" where
  "is_digit c = (c \<in> set ''0123456789'')"

definition key_number :: "string \<Rightarrow> nat" where
  "key_number s = foldl (\<lambda>a c. 10 * a + digit_val c) 0 s"

section \<open>The key space\<close>

text \<open>\<^verbatim>\<open>postal_codes = [f"{i:06d}" for i in range(10000, 830000)]\<close>\<close>

definition postal_codes :: "string list" where
  "postal_codes = map fmt06 [10000..<830000]"

section \<open>Data model\<close>

type_synonym key = string

text \<open>
  A raw result item is a JSON object read only through \<^verbatim>\<open>item.get(NAME, '')\<close>.
  A record of the output table is the Python dict built in \<^verbatim>\<open>process_postal\<close>:
  column names paired with values, in insertion order.
\<close>

type_synonym raw_item = "string \<rightharpoonup> string"

type_synonym building = "(string \<times> string) list"

text \<open>
  The decoded body of a search response is a JSON object; the downloader reads the
  fields \<^verbatim>\<open>found\<close>, \<^verbatim>\<open>totalNumPages\<close> and \<^verbatim>\<open>results\<close>, each of which may
  be absent.
\<close>

record search_response =
  found :: "int option"
  totalNumPages :: "int option"
  results :: "raw_item list option"

text \<open>
  A request is one \<^verbatim>\<open>session.get(url, timeout=60)\<close>; the URL is fixed up to
  \<^verbatim>\<open>searchVal\<close> and \<^verbatim>\<open>pageNum\<close>. What the code observes of a request is one of:
  \<^verbatim>\<open>asyncio.TimeoutError\<close> raised inside the request block, any other exception
  \<open>e\<close> raised there (carried as \<^verbatim>\<open>str(e)\<close>), or a response with its status and its
  decoded body.
\<close>

datatype request = Get (req_key: key) (req_page: int)

datatype outcome =
    Timeout
  | Failure string
  | Response nat search_response

datatype exn =
    OSError string
  | TransportError string
  | KeyError string

fun str_exn :: "exn \<Rightarrow> string" where
  "str_exn (OSError m) = m"
| "str_exn (TransportError m) = m"
| "str_exn (KeyError m) = m"

text \<open>
  The world outside the downloader: whether a write to the error log succeeds (the
  file opens for appending, the line is written and the file closes), the lines written
  to it so far, and the requests issued so far. An exception leaves the world as it is
  at the moment of the raise, so every operation returns its result (or its exception)
  together with the world.
\<close>

record world =
  sink_ok :: bool
  sink_log :: "string list"
  sent :: "request list"

text \<open>
  The transport answers a request as a function of the request and of the number of
  requests issued earlier for the same key (so that the first and the second probe of a
  key may differ). The operations of one key are sequential, and no two operations of a
  run share a key.
\<close>

type_synonym transport = "request \<Rightarrow> nat \<Rightarrow> outcome"

definition earlier :: "world \<Rightarrow> key \<Rightarrow> nat" where
  "earlier w k = length (filter (\<lambda>r. req_key r = k) (sent w))"

definition session_get :: "transport \<Rightarrow> request \<Rightarrow> world \<Rightarrow> outcome \<times> world" where
  "session_get t r w = (t r (earlier w (req_key r)), w\<lparr>sent := sent w @ [r]\<rparr>)"

section \<open>The error sink\<close>

text \<open>
  \<^verbatim>\<open>
  def log_error(self, postal_code, error):
      with open(self.error_log_filename, 'a') as f:
          f.write(f"Error with postal code {postal_code}: {error}\n")
  \<close>
  \<^verbatim>\<open>open\<close>, \<^verbatim>\<open>f.write\<close> and the close at the end of the \<^verbatim>\<open>with\<close> block
  raise \<^verbatim>\<open>OSError\<close> when the file system refuses them; nothing catches it here. The
  function has no \<^verbatim>\<open>await\<close>: it issues no request and returns or raises without
  giving control back to the event loop. The log is kept as the list of the lines
  written, without their newline; a write that fails adds no line.
\<close>

definition error_line :: "key \<Rightarrow> string \<Rightarrow> string" where
  "error_line postal_code error = ''Error with postal code '' @ postal_code @ '': '' @ error"

definition log_error :: "world \<Rightarrow> key \<Rightarrow> string \<Rightarrow> (exn + unit) \<times> world" where
  "log_error w postal_code error =
     (if sink_ok w
      then (Inr (), w\<lparr>sink_log := sink_log w @ [error_line postal_code error]\<rparr>)
      else (Inl (OSError ''error_log.txt''), w))"

section \<open>Fetch with retry\<close>

text \<open>
  The body of \<^verbatim>\<open>for attempt in range(retries)\<close> in \<^verbatim>\<open>fetch_postal\<close>, by recursion
  on the attempts still to come. A status other than 200 logs and breaks; if that log
  write raises, the exception is raised inside the \<^verbatim>\<open>try\<close> block and the
  \<^verbatim>\<open>except Exception\<close> handler logs again. A timeout continues while
  \<^verbatim>\<open>attempt < retries - 1\<close>; otherwise it logs and the loop goes on to the next
  iteration, if any. Falling out of the loop returns \<^verbatim>\<open>None\<close>.
\<close>

fun fetch_attempts ::
  "transport \<Rightarrow> key \<Rightarrow> nat \<Rightarrow> nat list \<Rightarrow> world \<Rightarrow> (exn + search_response option) \<times> world" where
  "fetch_attempts t postal_code retries [] w = (Inr None, w)"
| "fetch_attempts t postal_code retries (attempt # rest) w =
     (case session_get t (Get postal_code 1) w of
        (Response status body, w1) \<Rightarrow>
          if status = 200 then (Inr (Some body), w1)
          else (case log_error w1 postal_code (''HTTP '' @ str_nat status) of
                  (Inr _, w2) \<Rightarrow> (Inr None, w2)
                | (Inl e, w2) \<Rightarrow>
                    (case log_error w2 postal_code (str_exn e) of
                       (Inr _, w3) \<Rightarrow> (Inr None, w3)
                     | (Inl e', w3) \<Rightarrow> (Inl e', w3)))
      | (Timeout, w1) \<Rightarrow>
          if attempt < retries - 1 then fetch_attempts t postal_code retries rest w1
          else (case log_error w1 postal_code ''Timeout after retries'' of
                  (Inr _, w2) \<Rightarrow> fetch_attempts t postal_code retries rest w2
                | (Inl e, w2) \<Rightarrow> (Inl e, w2))
      | (Failure msg, w1) \<Rightarrow>
          (case log_error w1 postal_code msg of
             (Inr _, w2) \<Rightarrow> (Inr None, w2)
           | (Inl e, w2) \<Rightarrow> (Inl e, w2)))"

definition fetch_postal ::
  "transport \<Rightarrow> key \<Rightarrow> nat \<Rightarrow> world \<Rightarrow> (exn + search_response option) \<times> world" where
  "fetch_postal t postal_code retries w = fetch_attempts t postal_code retries [0..<retries] w"

section \<open>Page aggregation\<close>

definition item_get :: "raw_item \<Rightarrow> string \<Rightarrow> string \<Rightarrow> string" where
  "item_get item name dflt = (case item name of None \<Rightarrow> dflt | Some v \<Rightarrow> v)"

definition building_of :: "raw_item \<Rightarrow> building" where
  "building_of item =
     [(''blk_no'', item_get item ''BLK_NO'' []),
      (''street'', item_get item ''ROAD_NAME'' []),
      (''postal_code'', item_get item ''POSTAL'' []),
      (''name'', item_get item ''BUILDING'' []),
      (''lat'', item_get item ''LATITUDE'' []),
      (''lon'', item_get item ''LONGITUDE'' [])]"

text \<open>The columns of the empty table created in \<^verbatim>\<open>__init__\<close>.\<close>

definition df_columns :: "string list" where
  "df_columns = [''blk_no'', ''street'', ''postal_code'', ''name'', ''lat'', ''lon'']"

text \<open>\<^verbatim>\<open>data.get('results', [])\<close>\<close>

definition results_of :: "search_response \<Rightarrow> raw_item list" where
  "results_of data = (case results data of None \<Rightarrow> [] | Some items \<Rightarrow> items)"

text \<open>
  The loop \<^verbatim>\<open>for page in range(1, result['totalNumPages'] + 1)\<close> of
  \<^verbatim>\<open>process_postal\<close>. Only \<^verbatim>\<open>asyncio.TimeoutError\<close> is caught; any other exception
  of a page request leaves the function.
\<close>

fun fetch_pages ::
  "transport \<Rightarrow> key \<Rightarrow> int list \<Rightarrow> building list \<Rightarrow> world \<Rightarrow> (exn + building list) \<times> world" where
  "fetch_pages t postal_code [] records w = (Inr records, w)"
| "fetch_pages t postal_code (page # rest) records w =
     (case session_get t (Get postal_code page) w of
        (Response status data, w1) \<Rightarrow>
          if status = 200
          then fetch_pages t postal_code rest (records @ map building_of (results_of data)) w1
          else fetch_pages t postal_code rest records w1
      | (Timeout, w1) \<Rightarrow>
          (case log_error w1 postal_code (''Page '' @ str_int page @ '' timeout'') of
             (Inr _, w2) \<Rightarrow> fetch_pages t postal_code rest records w2
           | (Inl e, w2) \<Rightarrow> (Inl e, w2))
      | (Failure msg, w1) \<Rightarrow> (Inl (TransportError msg), w1))"

text \<open>
  \<^verbatim>\<open>result.get('found', 0) > 0\<close>; \<^verbatim>\<open>result['totalNumPages']\<close> raises
  \<^verbatim>\<open>KeyError\<close> when the field is absent.
\<close>

definition found_of :: "search_response \<Rightarrow> int" where
  "found_of result = (case found result of None \<Rightarrow> 0 | Some n \<Rightarrow> n)"

definition process_postal ::
  "transport \<Rightarrow> key \<Rightarrow> world \<Rightarrow> (exn + building list) \<times> world" where
  "process_postal t postal_code w =
     (case fetch_postal t postal_code 3 w of
        (Inl e, w1) \<Rightarrow> (Inl e, w1)
      | (Inr None, w1) \<Rightarrow> (Inr [], w1)
      | (Inr (Some result), w1) \<Rightarrow>
          if found_of result > 0 then
            (case totalNumPages result of
               None \<Rightarrow> (Inl (KeyError ''totalNumPages''), w1)
             | Some n \<Rightarrow> fetch_pages t postal_code [1..n] [] w1)
          else (Inr [], w1))"

section \<open>Scheduling and batch accumulation\<close>

text \<open>
  \<^verbatim>\<open>asyncio.gather(*tasks)\<close> starts every coroutine of \<open>tasks\<close> and lets them run
  concurrently. When all of them return, it returns their results in the order of
  \<open>tasks\<close>; when one raises, it raises that exception and cancels none of the others.
  So every operation of the batch takes effect, also when one of them fails. An
  operation reads the world only through the requests of its own key and the state of
  the error log, and no two operations of a batch share a key, so the results do not
  depend on how the operations interleave. The model takes their effects in the order
  of the list and, when several fail, reports the exception of the first of them in that
  order; a real run may interleave the requests and the log lines of different keys
  differently, and may raise the exception of another failed task.
\<close>

fun run_tasks ::
  "transport \<Rightarrow> key list \<Rightarrow> world \<Rightarrow> (exn + building list list) \<times> world" where
  "run_tasks t [] w = (Inr [], w)"
| "run_tasks t (postal_code # rest) w =
     (case process_postal t postal_code w of
        (r, w1) \<Rightarrow>
          (case run_tasks t rest w1 of
             (rs, w2) \<Rightarrow>
               (case r of
                  Inl e \<Rightarrow> (Inl e, w2)
                | Inr records \<Rightarrow>
                    (case rs of
                       Inl e \<Rightarrow> (Inl e, w2)
                     | Inr completed \<Rightarrow> (Inr (records # completed), w2)))))"

text \<open>
  What an instrumented run observes of the scheduler: the admission gate being
  acquired and released, a coroutine object being created (not started), and a call of
  \<^verbatim>\<open>asyncio.gather\<close> that starts the listed operations and waits for all of them.
\<close>

datatype sched_event = Acquire | Release | Create key | Gather "key list"

record run_state =
  tasks :: "key list"
  df :: "building list"
  events :: "sched_event list"

text \<open>
  \<^verbatim>\<open>
  for batch in completed:
      if batch:
          self.df = pd.concat([self.df, pd.DataFrame(batch)], ignore_index=True)
  \<close>
\<close>

definition flush :: "building list \<Rightarrow> building list list \<Rightarrow> building list" where
  "flush d completed = foldl (\<lambda>d batch. if batch \<noteq> [] then d @ batch else d) d completed"

definition gather ::
  "transport \<Rightarrow> run_state \<Rightarrow> world \<Rightarrow> (exn + run_state) \<times> world" where
  "gather t s w =
     (let s1 = s\<lparr>events := events s @ [Gather (tasks s)]\<rparr>
      in case run_tasks t (tasks s) w of
           (Inl e, w1) \<Rightarrow> (Inl e, w1)
         | (Inr completed, w1) \<Rightarrow> (Inr (s1\<lparr>df := flush (df s1) completed\<rparr>), w1))"

text \<open>
  The loop \<^verbatim>\<open>for i, postal_code in enumerate(postal_codes)\<close> of \<^verbatim>\<open>download_data\<close>.
  Inside \<^verbatim>\<open>async with sem\<close> the coroutine object is created and appended; the gate
  is released when the block is left. Every index that is a positive multiple of 1000
  gathers the pending tasks, merges their results and clears the task list.
\<close>

fun download_loop ::
  "transport \<Rightarrow> (nat \<times> key) list \<Rightarrow> run_state \<Rightarrow> world \<Rightarrow> (exn + run_state) \<times> world" where
  "download_loop t [] s w = (Inr s, w)"
| "download_loop t ((i, postal_code) # rest) s w =
     (let s1 = s\<lparr>tasks := tasks s @ [postal_code],
                 events := events s @ [Acquire, Create postal_code, Release]\<rparr>
      in if i mod 1000 = 0 \<and> i > 0 then
           (case gather t s1 w of
              (Inl e, w1) \<Rightarrow> (Inl e, w1)
            | (Inr s2, w1) \<Rightarrow> download_loop t rest (s2\<lparr>tasks := []\<rparr>) w1)
         else download_loop t rest s1 w)"

text \<open>
  After the loop: \<^verbatim>\<open>if tasks:\<close> gathers what is left and merges it. An exception
  raised in the loop is not caught and skips this step.
\<close>

definition final_gather ::
  "transport \<Rightarrow> (exn + run_state) \<times> world \<Rightarrow> (exn + run_state) \<times> world" where
  "final_gather t r =
     (case r of
        (Inl e, w1) \<Rightarrow> (Inl e, w1)
      | (Inr s, w1) \<Rightarrow> if tasks s \<noteq> [] then gather t s w1 else (Inr s, w1))"

text \<open>
  \<^verbatim>\<open>download_data\<close>, started with the rows \<open>d\<close> in \<^verbatim>\<open>self.df\<close> (none for a new
  downloader).
\<close>

definition download_data ::
  "transport \<Rightarrow> building list \<Rightarrow> world \<Rightarrow> (exn + run_state) \<times> world" where
  "download_data t d w =
     final_gather t
       (download_loop t (enumerate 0 postal_codes) \<lparr>tasks = [], df = d, events = []\<rparr> w)"

text \<open>
  Reading the scheduler's events: for every \<open>Gather\<close>, the number of permits of the
  admission gate held at that moment and the number of operations it starts.
\<close>

fun gate_at_gathers :: "nat \<Rightarrow> sched_event list \<Rightarrow> (nat \<times> nat) list" where
  "gate_at_gathers held [] = []"
| "gate_at_gathers held (Acquire # es) = gate_at_gathers (held + 1) es"
| "gate_at_gathers held (Release # es) = gate_at_gathers (held - 1) es"
| "gate_at_gathers held (Create k # es) = gate_at_gathers held es"
| "gate_at_gathers held (Gather ks # es) = (held, length ks) # gate_at_gathers held es"

text \<open>
  The same reading for the outcome of a run: empty when the run was aborted by an
  exception.
\<close>

definition gate_of_run :: "(exn + run_state) \<times> world \<Rightarrow> (nat \<times> nat) list" where
  "gate_of_run r = (case fst r of Inl e \<Rightarrow> [] | Inr s \<Rightarrow> gate_at_gathers 0 (events s))"

section \<open>Reading the page requests of a key\<close>

text \<open>
  Used only to state properties of page aggregation: the page numbers requested in
  turn, each with the transport's answer, when \<open>c\<close> requests were issued for the key
  before; the records a page answer carries; the log line a page answer causes.
\<close>

fun pages_seen :: "transport \<Rightarrow> key \<Rightarrow> nat \<Rightarrow> int list \<Rightarrow> (int \<times> outcome) list" where
  "pages_seen t k c [] = []"
| "pages_seen t k c (p # ps) = (p, t (Get k p) c) # pages_seen t k (Suc c) ps"

fun page_records :: "int \<times> outcome \<Rightarrow> building list" where
  "page_records (p, Response status data) =
     (if status = 200 then map building_of (results_of data) else [])"
| "page_records (p, Timeout) = []"
| "page_records (p, Failure m) = []"

fun page_errors :: "key \<Rightarrow> int \<times> outcome \<Rightarrow> string list" where
  "page_errors k (p, Timeout) = [error_line k (''Page '' @ str_int p @ '' timeout'')]"
| "page_errors k (p, Response status data) = []"
| "page_errors k (p, Failure m) = []"

fun is_failure :: "outcome \<Rightarrow> bool" where
  "is_failure (Failure m) = True"
| "is_failure Timeout = False"
| "is_failure (Response status data) = False"

section \<open>Properties of the formatting functions\<close>

declare upt_rec_numeral [simp del]

lemma lt10_cases:
  "(d::nat) < 10 \<Longrightarrow> d = 0 \<or> d = 1 \<or> d = 2 \<or> d = 3 \<or> d = 4 \<or> d = 5 \<or> d = 6 \<or> d = 7 \<or> d = 8 \<or> d = 9"
  by arith

lemma digit_val_digit_char: "d < 10 \<Longrightarrow> digit_val (digit_char d) = d"
  by (drule lt10_cases) (auto simp: digit_val_def digit_char_def)

lemma is_digit_digit_char: "d < 10 \<Longrightarrow> is_digit (digit_char d)"
  by (drule lt10_cases) (auto simp: is_digit_def digit_char_def)

lemma key_number_snoc: "key_number (s @ [c]) = 10 * key_number s + digit_val c"
  by (simp add: key_number_def)

lemma key_number_str_nat: "key_number (str_nat n) = n"
proof (induction n rule: str_nat.induct)
  case (1 n)
  show ?case
  proof (cases "n < 10")
    case True
    then show ?thesis
      by (simp add: str_nat.simps [of n] key_number_def digit_val_digit_char)
  next
    case False
    with 1 show ?thesis
      by (simp add: str_nat.simps [of n] key_number_snoc digit_val_digit_char)
  qed
qed

lemma digits_str_nat: "c \<in> set (str_nat n) \<Longrightarrow> is_digit c"
proof (induction n rule: str_nat.induct)
  case (1 n)
  then show ?case
    by (cases "n < 10") (auto simp: str_nat.simps [of n] is_digit_digit_char)
qed

lemma length_str_nat_le: "n < 10 ^ k \<Longrightarrow> 0 < k \<Longrightarrow> length (str_nat n) \<le> k"
proof (induction n arbitrary: k rule: str_nat.induct)
  case (1 n)
  show ?case
  proof (cases "n < 10")
    case True
    with 1 show ?thesis by (simp add: str_nat.simps [of n])
  next
    case False
    with "1.prems" obtain j where k: "k = Suc j" and j: "0 < j"
      by (cases k; cases "k - 1") auto
    from "1.prems" k have "n div 10 < 10 ^ j"
      by (simp add: less_mult_imp_div_less mult.commute)
    with "1.IH" False j have "length (str_nat (n div 10)) \<le> j" by simp
    with False k show ?thesis by (simp add: str_nat.simps [of n])
  qed
qed

lemma key_number_zeros: "key_number (replicate m CHR ''0'' @ s) = key_number s"
proof -
  have "foldl (\<lambda>a c. 10 * a + digit_val c) 0 (replicate m CHR ''0'') = 0"
    by (induction m) (simp_all add: digit_val_def)
  then show ?thesis by (simp add: key_number_def)
qed

lemma key_number_fmt06: "key_number (fmt06 n) = n"
  by (simp add: fmt06_def key_number_zeros key_number_str_nat)

lemma length_fmt06: "n < 1000000 \<Longrightarrow> length (fmt06 n) = 6"
  using length_str_nat_le [of n 6] by (simp add: fmt06_def)

lemma digits_fmt06: "c \<in> set (fmt06 n) \<Longrightarrow> is_digit c"
  by (auto simp: fmt06_def is_digit_def dest: digits_str_nat [unfolded is_digit_def])

lemma key_number_str_int: "0 \<le> p \<Longrightarrow> key_number (str_int p) = nat p"
  by (simp add: str_int_def key_number_str_nat)

lemma digits_str_int: "0 \<le> p \<Longrightarrow> list_all is_digit (str_int p)"
  by (auto simp: str_int_def list_all_iff digits_str_nat)

lemma postal_codes_numbers: "map key_number postal_codes = [10000..<830000]"
  unfolding postal_codes_def by (simp add: key_number_fmt06 comp_def)

lemma postal_codes_distinct: "distinct postal_codes"
proof -
  have "distinct (map key_number postal_codes)"
    unfolding postal_codes_numbers by (rule distinct_upt)
  then show ?thesis by (simp add: distinct_map)
qed

text \<open>
  C7. The key space has one key per integer of [10000, 830000), in ascending numeric
  order: reading the keys back as numbers gives exactly that range. Every key is six
  characters long and consists of decimal digits. The key list is a constant of the
  model (no state is read or written to build it).
\<close>

theorem postal_codes_key_space:
  "map key_number postal_codes = [10000..<830000]
   \<and> length postal_codes = 820000
   \<and> sorted_wrt (<) (map key_number postal_codes)
   \<and> distinct postal_codes
   \<and> (\<forall>k \<in> set postal_codes. length k = 6 \<and> (\<forall>c \<in> set k. is_digit c))"
proof -
  have m: "map key_number postal_codes = [10000..<830000]"
    by (rule postal_codes_numbers)
  have s: "sorted_wrt (<) (map key_number postal_codes)"
    unfolding m by (rule sorted_wrt_upt)
  have l: "\<forall>k \<in> set postal_codes. length k = 6 \<and> (\<forall>c \<in> set k. is_digit c)"
    unfolding postal_codes_def
    by (auto simp: length_fmt06 digits_fmt06)
  have n: "length postal_codes = 820000"
    unfolding postal_codes_def by simp
  have d': "distinct postal_codes"
    by (rule postal_codes_distinct)
  show ?thesis
    using m n s d' l by blast
qed

theorem postal_codes_key_space_witness:
  "''010000'' \<in> set postal_codes \<and> length ''010000'' = 6 \<and> is_digit CHR ''1''"
proof -
  have f: "fmt06 10000 = ''010000''"
    by (simp add: fmt06_def str_nat.simps digit_char_def)
  have "fmt06 10000 \<in> set postal_codes"
    unfolding postal_codes_def set_map by (rule imageI) simp
  with f have k: "''010000'' \<in> set postal_codes" by simp
  from postal_codes_key_space
  have "\<forall>k \<in> set postal_codes. length k = 6 \<and> (\<forall>c \<in> set k. is_digit c)" by blast
  with k have "length ''010000'' = 6 \<and> (\<forall>c \<in> set ''010000''. is_digit c)" by blast
  with k show ?thesis by simp
qed

section \<open>Requests and the error log\<close>

lemma upt_0_3: "[0..<3] = [0, 1, 2]"
  by (simp add: upt_rec)

lemma earlier_replicate:
  "sent w' = sent w @ replicate n (Get k p) \<Longrightarrow> earlier w' k = earlier w k + n"
  by (simp add: earlier_def)


lemma earlier_sent [simp]:
  "earlier (w\<lparr>sent := sent w @ [r]\<rparr>) k = (if req_key r = k then Suc (earlier w k) else earlier w k)"
  by (simp add: earlier_def)

lemma earlier_log [simp]: "earlier (w\<lparr>sink_log := l\<rparr>) k = earlier w k"
  by (simp add: earlier_def)

lemma fetch_attempts_count:
  "fetch_attempts t k R [a..<R] w = (res, w') \<Longrightarrow> a < R \<Longrightarrow>
   \<exists>n. n \<le> R - a \<and> 0 < n
     \<and> sent w' = sent w @ replicate n (Get k 1)
     \<and> (\<forall>j. Suc j < n \<longrightarrow> t (Get k 1) (earlier w k + j) = Timeout)
     \<and> (t (Get k 1) (earlier w k + (n - 1)) = Timeout \<longrightarrow> n = R - a)
     \<and> sink_ok w' = sink_ok w"
proof (induction "R - a" arbitrary: a w)
  case 0
  then show ?case by auto
next
  case (Suc d)
  then have a: "a < R" and up: "[a..<R] = a # [Suc a..<R]" by (auto simp: upt_conv_Cons)
  show ?case
  proof (cases "t (Get k 1) (earlier w k)")
    case Timeout
    show ?thesis
    proof (cases "a < R - 1")
      case True
      let ?w1 = "w\<lparr>sent := sent w @ [Get k 1]\<rparr>"
      from Suc.prems Timeout True have r: "fetch_attempts t k R [Suc a..<R] ?w1 = (res, w')"
        by (simp add: up session_get_def)
      from Suc.hyps(2) have d: "d = R - Suc a" by simp
      from True have sa: "Suc a < R" by simp
      from Suc.hyps(1) [OF d r sa] obtain n where n: "n \<le> R - Suc a" "0 < n"
        "sent w' = sent ?w1 @ replicate n (Get k 1)"
        "\<forall>j. Suc j < n \<longrightarrow> t (Get k 1) (earlier ?w1 k + j) = Timeout"
        "t (Get k 1) (earlier ?w1 k + (n - 1)) = Timeout \<longrightarrow> n = R - Suc a"
        "sink_ok w' = sink_ok ?w1" by blast
      have "\<forall>j. Suc j < Suc n \<longrightarrow> t (Get k 1) (earlier w k + j) = Timeout"
      proof (intro allI impI)
        fix j assume "Suc j < Suc n"
        then show "t (Get k 1) (earlier w k + j) = Timeout"
          using n(4) Timeout by (cases j) auto
      qed
      moreover have "t (Get k 1) (earlier w k + (Suc n - 1)) = Timeout \<longrightarrow> Suc n = R - a"
        using n(5) n(2) True by (cases n) auto
      ultimately show ?thesis
        using n a by (intro exI [of _ "Suc n"]) (auto simp: replicate_app_Cons_same)
    next
      case False
      with Suc.prems Timeout a show ?thesis
        by (intro exI [of _ 1]) (auto simp: up session_get_def log_error_def split: if_splits)
    qed
  next
    case (Failure m)
    with Suc.prems a show ?thesis
      by (intro exI [of _ 1]) (auto simp: up session_get_def log_error_def split: if_splits)
  next
    case (Response s body)
    with Suc.prems a show ?thesis
      by (intro exI [of _ 1]) (auto simp: up session_get_def log_error_def split: if_splits)
  qed
qed

lemma fetch_attempts_outcome:
  "fetch_attempts t k R [a..<R] w = (res, w') \<Longrightarrow> a < R \<Longrightarrow>
   (case t (Get k 1) (earlier w' k - 1) of
       Response s body \<Rightarrow>
         if s = 200 then res = Inr (Some body) \<and> sink_log w' = sink_log w
         else if sink_ok w
           then res = Inr None \<and> sink_log w' = sink_log w @ [error_line k (''HTTP '' @ str_nat s)]
           else res = Inl (OSError ''error_log.txt'') \<and> sink_log w' = sink_log w
     | Timeout \<Rightarrow>
         if sink_ok w
           then res = Inr None \<and> sink_log w' = sink_log w @ [error_line k ''Timeout after retries'']
           else res = Inl (OSError ''error_log.txt'') \<and> sink_log w' = sink_log w
     | Failure m \<Rightarrow>
         if sink_ok w
           then res = Inr None \<and> sink_log w' = sink_log w @ [error_line k m]
           else res = Inl (OSError ''error_log.txt'') \<and> sink_log w' = sink_log w)"
proof (induction "R - a" arbitrary: a w)
  case 0
  then show ?case by auto
next
  case (Suc d)
  then have a: "a < R" and up: "[a..<R] = a # [Suc a..<R]" by (auto simp: upt_conv_Cons)
  show ?case
  proof (cases "t (Get k 1) (earlier w k)")
    case Timeout
    show ?thesis
    proof (cases "a < R - 1")
      case True
      let ?w1 = "w\<lparr>sent := sent w @ [Get k 1]\<rparr>"
      from Suc.prems Timeout True have r: "fetch_attempts t k R [Suc a..<R] ?w1 = (res, w')"
        by (simp add: up session_get_def)
      from Suc.hyps(2) have d: "d = R - Suc a" by simp
      from True have sa: "Suc a < R" by simp
      from Suc.hyps(1) [OF d r sa] show ?thesis by (auto split: outcome.splits if_splits)
    next
      case False
      with Suc.prems Timeout a show ?thesis
        by (auto simp: up session_get_def log_error_def split: if_splits)
    qed
  next
    case (Failure m)
    with Suc.prems a show ?thesis
      by (auto simp: up session_get_def log_error_def split: if_splits)
  next
    case (Response s body)
    with Suc.prems a show ?thesis
      by (auto simp: up session_get_def log_error_def split: if_splits)
  qed
qed


text \<open>
  C3, as stated, fails. With an error log that cannot be written, three timeouts end
  the call with the \<open>OSError\<close> of the log write and no entry \<open>Timeout after retries\<close>;
  and with a retry budget of 0 the call makes no attempt and returns no result without
  any entry.
\<close>

theorem fetch_postal_retry_counterexample:
  "fetch_postal (\<lambda>r c. Timeout) ''118411'' 3 \<lparr>sink_ok = False, sink_log = [], sent = []\<rparr>
     = (Inl (OSError ''error_log.txt''),
        \<lparr>sink_ok = False, sink_log = [],
         sent = [Get ''118411'' 1, Get ''118411'' 1, Get ''118411'' 1]\<rparr>)
   \<and> fetch_postal (\<lambda>r c. Timeout) ''118411'' 0 \<lparr>sink_ok = True, sink_log = [], sent = []\<rparr>
     = (Inr None, \<lparr>sink_ok = True, sink_log = [], sent = []\<rparr>)"
  by (simp add: fetch_postal_def upt_0_3 session_get_def log_error_def earlier_def)

text \<open>
  C3, amended. A call of \<open>fetch_postal\<close> with retry budget \<open>R\<close> issues \<open>n \<le> R\<close> requests
  for page 1 of its key, at least one when \<open>R \<ge> 1\<close>. Every request before the last one
  timed out (a re-attempt follows a timeout only; a status other than 200 or any other
  error ends the call at once), and if the last one timed out as well then all \<open>R\<close>
  attempts were made. The call ends in exactly one terminal outcome, decided by the
  answer to the last request: status 200 gives the decoded body and no log entry; any
  other answer gives no result and exactly one log entry when the entry can be written
  (the reason is \<open>Timeout after retries\<close> when all attempts timed out, the status or
  the error text otherwise), and the \<open>OSError\<close> of the log write with no entry when it
  cannot. With \<open>R = 0\<close> no request is issued and the call returns no result with no
  entry.
\<close>

theorem fetch_postal_retry:
  assumes "fetch_postal t k R w = (res, w')"
  shows "\<exists>n. n \<le> R \<and> (0 < R \<longrightarrow> 0 < n)
     \<and> sent w' = sent w @ replicate n (Get k 1)
     \<and> (\<forall>j. Suc j < n \<longrightarrow> t (Get k 1) (earlier w k + j) = Timeout)
     \<and> (0 < n \<and> t (Get k 1) (earlier w k + (n - 1)) = Timeout \<longrightarrow> n = R)
     \<and> (if n = 0 then res = Inr None \<and> sink_log w' = sink_log w
         else (case t (Get k 1) (earlier w k + (n - 1)) of
       Response s body \<Rightarrow>
         if s = 200 then res = Inr (Some body) \<and> sink_log w' = sink_log w
         else if sink_ok w
           then res = Inr None \<and> sink_log w' = sink_log w @ [error_line k (''HTTP '' @ str_nat s)]
           else res = Inl (OSError ''error_log.txt'') \<and> sink_log w' = sink_log w
     | Timeout \<Rightarrow>
         if sink_ok w
           then res = Inr None \<and> sink_log w' = sink_log w @ [error_line k ''Timeout after retries'']
           else res = Inl (OSError ''error_log.txt'') \<and> sink_log w' = sink_log w
     | Failure m \<Rightarrow>
         if sink_ok w
           then res = Inr None \<and> sink_log w' = sink_log w @ [error_line k m]
           else res = Inl (OSError ''error_log.txt'') \<and> sink_log w' = sink_log w))"
proof (cases "0 < R")
  case False
  with assms have "res = Inr None" "w' = w"
    by (simp_all add: fetch_postal_def)
  with False show ?thesis
    by (intro exI [of _ 0]) simp
next
  case True
  from assms have f: "fetch_attempts t k R [0..<R] w = (res, w')"
    by (simp add: fetch_postal_def)
  from fetch_attempts_count [OF f True] obtain n where n: "n \<le> R" "0 < n"
    "sent w' = sent w @ replicate n (Get k 1)"
    "\<forall>j. Suc j < n \<longrightarrow> t (Get k 1) (earlier w k + j) = Timeout"
    "t (Get k 1) (earlier w k + (n - 1)) = Timeout \<longrightarrow> n = R"
    by auto
  from earlier_replicate [OF n(3)] n(2)
  have e: "earlier w' k - 1 = earlier w k + (n - 1)" by simp
  from fetch_attempts_outcome [OF f True]
  have "(case t (Get k 1) (earlier w k + (n - 1)) of
       Response s body \<Rightarrow>
         if s = 200 then res = Inr (Some body) \<and> sink_log w' = sink_log w
         else if sink_ok w
           then res = Inr None \<and> sink_log w' = sink_log w @ [error_line k (''HTTP '' @ str_nat s)]
           else res = Inl (OSError ''error_log.txt'') \<and> sink_log w' = sink_log w
     | Timeout \<Rightarrow>
         if sink_ok w
           then res = Inr None \<and> sink_log w' = sink_log w @ [error_line k ''Timeout after retries'']
           else res = Inl (OSError ''error_log.txt'') \<and> sink_log w' = sink_log w
     | Failure m \<Rightarrow>
         if sink_ok w
           then res = Inr None \<and> sink_log w' = sink_log w @ [error_line k m]
           else res = Inl (OSError ''error_log.txt'') \<and> sink_log w' = sink_log w)"
    unfolding e .
  with n show ?thesis
    by (intro exI [of _ n]) simp
qed

theorem fetch_postal_retry_witness:
  "fetch_postal (\<lambda>r n. Timeout) ''118411'' 3 \<lparr>sink_ok = True, sink_log = [], sent = []\<rparr>
     = (Inr None,
        \<lparr>sink_ok = True, sink_log = [''Error with postal code 118411: Timeout after retries''],
         sent = [Get ''118411'' 1, Get ''118411'' 1, Get ''118411'' 1]\<rparr>)
   \<and> (\<exists>n. n \<le> (3::nat)
         \<and> [Get ''118411'' 1, Get ''118411'' 1, Get ''118411'' 1] = replicate n (Get ''118411'' 1))"
proof -
  have f: "fetch_postal (\<lambda>r n. Timeout) ''118411'' 3 \<lparr>sink_ok = True, sink_log = [], sent = []\<rparr>
     = (Inr None,
        \<lparr>sink_ok = True, sink_log = [''Error with postal code 118411: Timeout after retries''],
         sent = [Get ''118411'' 1, Get ''118411'' 1, Get ''118411'' 1]\<rparr>)"
    by (simp add: fetch_postal_def upt_0_3 session_get_def log_error_def error_line_def earlier_def)
  from fetch_postal_retry [OF f] f show ?thesis by auto
qed

lemma fetch_postal_success_log:
  assumes "fetch_postal t k R w = (Inr (Some body), w')"
  shows "sink_log w' = sink_log w"
proof (cases "0 < R")
  case True
  from assms have f: "fetch_attempts t k R [0..<R] w = (Inr (Some body), w')"
    by (simp add: fetch_postal_def)
  from fetch_attempts_outcome [OF f True] show ?thesis
    by (auto split: outcome.splits if_splits)
next
  case False
  with assms show ?thesis by (simp add: fetch_postal_def)
qed

text \<open>
  C8. When the initial probe of a key succeeds and its body has \<open>found = 0\<close>, the key
  resolves with an empty record set, no page is requested and nothing is written to the
  error log.
\<close>

theorem process_postal_found_zero:
  assumes "fetch_postal t k 3 w = (Inr (Some body), w1)" and "found body = Some 0"
  shows "process_postal t k w = (Inr [], w1) \<and> sink_log w1 = sink_log w"
  using assms fetch_postal_success_log [OF assms(1)]
  by (simp add: process_postal_def found_of_def)

theorem process_postal_found_zero_witness:
  "fetch_postal (\<lambda>r n. Response 200 \<lparr>found = Some 0, totalNumPages = Some 0, results = Some []\<rparr>)
      ''999999'' 3 \<lparr>sink_ok = True, sink_log = [], sent = []\<rparr>
     = (Inr (Some \<lparr>found = Some 0, totalNumPages = Some 0, results = Some []\<rparr>),
        \<lparr>sink_ok = True, sink_log = [], sent = [Get ''999999'' 1]\<rparr>)
   \<and> found \<lparr>found = Some 0, totalNumPages = Some 0, results = Some []\<rparr> = Some 0
   \<and> process_postal (\<lambda>r n. Response 200 \<lparr>found = Some 0, totalNumPages = Some 0, results = Some []\<rparr>)
      ''999999'' \<lparr>sink_ok = True, sink_log = [], sent = []\<rparr>
     = (Inr [], \<lparr>sink_ok = True, sink_log = [], sent = [Get ''999999'' 1]\<rparr>)"
proof -
  let ?b = "\<lparr>found = Some 0, totalNumPages = Some 0, results = Some []\<rparr>"
  have f: "fetch_postal (\<lambda>r n. Response 200 ?b) ''999999'' 3 \<lparr>sink_ok = True, sink_log = [], sent = []\<rparr>
     = (Inr (Some ?b), \<lparr>sink_ok = True, sink_log = [], sent = [Get ''999999'' 1]\<rparr>)"
    by (simp add: fetch_postal_def upt_0_3 session_get_def)
  have z: "found ?b = Some 0" by simp
  from process_postal_found_zero [OF f z] f show ?thesis by simp
qed

section \<open>Page aggregation of one key\<close>

lemma length_pages_seen [simp]: "length (pages_seen t k c ps) = length ps"
  by (induction ps arbitrary: c) auto

lemma map_fst_pages_seen [simp]: "map fst (pages_seen t k c ps) = ps"
  by (induction ps arbitrary: c) auto

lemma fetch_pages_seen:
  assumes "sink_ok w"
    and "\<forall>x \<in> set (pages_seen t k (earlier w k) ps). \<not> is_failure (snd x)"
  shows "fetch_pages t k ps recs w =
     (Inr (recs @ concat (map page_records (pages_seen t k (earlier w k) ps))),
      w\<lparr>sent := sent w @ map (Get k) ps,
        sink_log := sink_log w @ concat (map (page_errors k) (pages_seen t k (earlier w k) ps))\<rparr>)"
  using assms
proof (induction ps arbitrary: recs w)
  case Nil
  then show ?case by simp
next
  case (Cons p ps)
  show ?case
  proof (cases "t (Get k p) (earlier w k)")
    case Timeout
    let ?w2 = "w\<lparr>sent := sent w @ [Get k p],
                 sink_log := sink_log w @ [error_line k (''Page '' @ str_int p @ '' timeout'')]\<rparr>"
    from Cons.prems have "sink_ok ?w2"
      and "\<forall>x \<in> set (pages_seen t k (earlier ?w2 k) ps). \<not> is_failure (snd x)"
      by simp_all
    from Cons.IH [OF this] Timeout Cons.prems(1) show ?thesis
      by (simp add: session_get_def log_error_def)
  next
    case (Failure m)
    with Cons.prems show ?thesis by simp
  next
    case (Response s d)
    let ?w1 = "w\<lparr>sent := sent w @ [Get k p]\<rparr>"
    from Cons.prems have "sink_ok ?w1"
      and "\<forall>x \<in> set (pages_seen t k (earlier ?w1 k) ps). \<not> is_failure (snd x)"
      by simp_all
    from Cons.IH [OF this] Response show ?thesis
      by (simp add: session_get_def)
  qed
qed


lemma fetch_postal_sink_ok:
  assumes "fetch_postal t k R w = (res, w')"
  shows "sink_ok w' = sink_ok w"
proof (cases "0 < R")
  case True
  from assms have f: "fetch_attempts t k R [0..<R] w = (res, w')"
    by (simp add: fetch_postal_def)
  from fetch_attempts_count [OF f True] show ?thesis by blast
next
  case False
  with assms show ?thesis by (simp add: fetch_postal_def)
qed

lemma process_postal_pages:
  assumes probe: "fetch_postal t k 3 w = (Inr (Some body), w1)"
    and found: "0 < found_of body" and pages: "totalNumPages body = Some n"
    and ok: "sink_ok w"
    and seen: "seen = pages_seen t k (earlier w1 k) [1..n]"
    and nofail: "\<forall>x \<in> set seen. \<not> is_failure (snd x)"
  shows "process_postal t k w =
     (Inr (concat (map page_records seen)),
      w1\<lparr>sent := sent w1 @ map (Get k) [1..n],
         sink_log := sink_log w @ concat (map (page_errors k) seen)\<rparr>)"
proof -
  from fetch_postal_sink_ok [OF probe] ok have ok1: "sink_ok w1" by simp
  from fetch_postal_success_log [OF probe] have log1: "sink_log w1 = sink_log w" .
  from nofail seen have nf: "\<forall>x \<in> set (pages_seen t k (earlier w1 k) [1..n]). \<not> is_failure (snd x)"
    by simp
  from fetch_pages_seen [OF ok1 nf, of "[]"] probe found pages seen log1 show ?thesis
    by (simp add: process_postal_def)
qed

text \<open>
  C5, as stated, fails. Page 2 of 3 times out. With an error log that cannot be
  written, the log write in the timeout handler raises: page 3 is never requested, the
  records of page 1 are lost and the key ends with the \<open>OSError\<close>. With a writable log,
  if the request for page 3 then fails with another error, the timeout is logged but
  the key ends with that error and the records of page 1 are lost as well.
\<close>

theorem page_timeout_not_fatal_counterexample:
  "process_postal
     (\<lambda>r c. if c = 2 then Timeout
            else Response 200 \<lparr>found = Some 3, totalNumPages = Some 3,
                                results = Some [ [''BLK_NO'' \<mapsto> ''1''] ]\<rparr>)
     ''118411'' \<lparr>sink_ok = False, sink_log = [], sent = []\<rparr>
   = (Inl (OSError ''error_log.txt''),
      \<lparr>sink_ok = False, sink_log = [],
       sent = [Get ''118411'' 1, Get ''118411'' 1, Get ''118411'' 2]\<rparr>)
   \<and> process_postal
     (\<lambda>r c. if c = 2 then Timeout
            else if c = 3 then Failure ''Connection reset by peer''
            else Response 200 \<lparr>found = Some 3, totalNumPages = Some 3,
                                results = Some [ [''BLK_NO'' \<mapsto> ''1''] ]\<rparr>)
     ''118411'' \<lparr>sink_ok = True, sink_log = [], sent = []\<rparr>
   = (Inl (TransportError ''Connection reset by peer''),
      \<lparr>sink_ok = True, sink_log = [''Error with postal code 118411: Page 2 timeout''],
       sent = [Get ''118411'' 1, Get ''118411'' 1, Get ''118411'' 2, Get ''118411'' 3]\<rparr>)"
  by (simp add: process_postal_def fetch_postal_def upt_0_3 session_get_def found_of_def
      upto.simps results_of_def log_error_def error_line_def earlier_def
      str_int_def str_nat.simps digit_char_def)

text \<open>
  C5, amended. Let the probe of a key succeed with a positive found-count and \<open>n\<close>
  pages, let entries be writable to the error log and let no page request of the key
  end in an error other than a timeout. If the \<open>i\<close>-th page request (counting from 0)
  times out, it is the request for page \<open>p = i + 1\<close>, and \<open>process_postal\<close> still
  returns normally: every page from 1 to \<open>n\<close> is requested, the result holds the
  records of all the other pages, and the log gains the line \<open>Page p timeout\<close> among the
  page-level lines of the other pages, with no key-level entry. The page number in that
  line is \<open>p\<close> in decimal: digits only, reading back as \<open>p\<close>.
\<close>

theorem page_timeout_not_fatal:
  assumes "fetch_postal t k 3 w = (Inr (Some body), w1)"
    and "0 < found_of body" and "totalNumPages body = Some n"
    and "sink_ok w"
    and "seen = pages_seen t k (earlier w1 k) [1..n]"
    and "\<forall>x \<in> set seen. \<not> is_failure (snd x)"
    and "i < length seen" and "seen ! i = (p, Timeout)"
  shows "\<exists>w'. process_postal t k w =
            (Inr (concat (map page_records (take i seen @ drop (Suc i) seen))), w')
      \<and> sent w' = sent w1 @ map (Get k) [1..n]
      \<and> sink_log w' = sink_log w
           @ concat (map (page_errors k) (take i seen))
           @ [error_line k (''Page '' @ str_int p @ '' timeout'')]
           @ concat (map (page_errors k) (drop (Suc i) seen))
      \<and> p = 1 + int i
      \<and> key_number (str_int p) = nat p \<and> list_all is_digit (str_int p)"
proof -
  from assms(7,8) have split: "seen = take i seen @ (p, Timeout) # drop (Suc i) seen"
    by (metis id_take_nth_drop)
  have r: "concat (map page_records seen)
             = concat (map page_records (take i seen @ drop (Suc i) seen))"
    by (subst split) simp
  have l: "concat (map (page_errors k) seen)
             = concat (map (page_errors k) (take i seen))
               @ [error_line k (''Page '' @ str_int p @ '' timeout'')]
               @ concat (map (page_errors k) (drop (Suc i) seen))"
    by (subst split) simp
  from assms(5) have pages: "map fst seen = [1..n]" by simp
  from assms(7) have "fst (seen ! i) = map fst seen ! i" by simp
  with assms(8) pages have pn: "p = [1..n] ! i" by simp
  from assms(7) pages have "i < length [1..n]"
    by (metis length_map)
  then have "1 + int i \<le> n" by simp
  with pn have p: "p = 1 + int i" by (simp add: nth_upto)
  then have "0 \<le> p" by simp
  then have d: "key_number (str_int p) = nat p" "list_all is_digit (str_int p)"
    by (simp_all add: key_number_str_int digits_str_int)
  from process_postal_pages [OF assms(1-6)] r l p d show ?thesis by simp
qed

theorem page_timeout_not_fatal_witness:
  "fst (process_postal
     (\<lambda>r c. if c = 2 then Timeout
            else Response 200 \<lparr>found = Some 3, totalNumPages = Some 3,
                                results = Some [ [''BLK_NO'' \<mapsto> ''1''] ]\<rparr>)
     ''118411'' \<lparr>sink_ok = True, sink_log = [], sent = []\<rparr>)
   = Inr [building_of [''BLK_NO'' \<mapsto> ''1''], building_of [''BLK_NO'' \<mapsto> ''1'']]
   \<and> sink_log (snd (process_postal
     (\<lambda>r c. if c = 2 then Timeout
            else Response 200 \<lparr>found = Some 3, totalNumPages = Some 3,
                                results = Some [ [''BLK_NO'' \<mapsto> ''1''] ]\<rparr>)
     ''118411'' \<lparr>sink_ok = True, sink_log = [], sent = []\<rparr>))
   = [''Error with postal code 118411: Page 2 timeout'']
   \<and> sent (snd (process_postal
     (\<lambda>r c. if c = 2 then Timeout
            else Response 200 \<lparr>found = Some 3, totalNumPages = Some 3,
                                results = Some [ [''BLK_NO'' \<mapsto> ''1''] ]\<rparr>)
     ''118411'' \<lparr>sink_ok = True, sink_log = [], sent = []\<rparr>))
   = [Get ''118411'' 1, Get ''118411'' 1, Get ''118411'' 2, Get ''118411'' 3]
   \<and> key_number (str_int 2) = 2"
proof -
  let ?b = "\<lparr>found = Some 3, totalNumPages = Some 3, results = Some [ [''BLK_NO'' \<mapsto> ''1''] ]\<rparr>"
  let ?t = "\<lambda>(r::request) (c::nat). if c = 2 then Timeout else Response 200 ?b"
  let ?w = "\<lparr>sink_ok = True, sink_log = [], sent = []\<rparr>"
  let ?w1 = "\<lparr>sink_ok = True, sink_log = [], sent = [Get ''118411'' 1]\<rparr>"
  let ?seen = "[(1, Response 200 ?b), (2, Timeout), (3, Response 200 ?b)]"
  have probe: "fetch_postal ?t ''118411'' 3 ?w = (Inr (Some ?b), ?w1)"
    by (simp add: fetch_postal_def upt_0_3 session_get_def earlier_def)
  have found: "0 < found_of ?b" by (simp add: found_of_def)
  have pages: "totalNumPages ?b = Some 3" by simp
  have ok: "sink_ok ?w" by simp
  have seen: "?seen = pages_seen ?t ''118411'' (earlier ?w1 ''118411'') [1..3]"
    by (simp add: upto.simps earlier_def)
  have nofail: "\<forall>x \<in> set ?seen. \<not> is_failure (snd x)" by simp
  have i: "1 < length ?seen" by simp
  have at: "?seen ! 1 = (2, Timeout)" by simp
  from page_timeout_not_fatal [OF probe found pages ok seen nofail i at]
  obtain w' where w': "process_postal ?t ''118411'' ?w =
            (Inr (concat (map page_records (take 1 ?seen @ drop (Suc 1) ?seen))), w')"
      "sent w' = sent ?w1 @ map (Get ''118411'') [1..3]"
      "sink_log w' = sink_log ?w
           @ concat (map (page_errors ''118411'') (take 1 ?seen))
           @ [error_line ''118411'' (''Page '' @ str_int 2 @ '' timeout'')]
           @ concat (map (page_errors ''118411'') (drop (Suc 1) ?seen))"
      "key_number (str_int 2) = nat 2"
    by blast
  from w' show ?thesis
    by (simp add: results_of_def upto.simps error_line_def str_int_def
        str_nat.simps digit_char_def)
qed

text \<open>
  C10. Let the probe of a key succeed with a positive found-count and \<open>n\<close> pages, let
  entries be writable to the error log and let no page request of the key end in an
  error other than a timeout. A page request that completes with a status other than
  200 contributes nothing: the records and the log lines of the key are those of the
  other pages alone, every page is still requested, and \<open>process_postal\<close> returns
  normally.
\<close>

theorem page_non200_skipped:
  assumes "fetch_postal t k 3 w = (Inr (Some body), w1)"
    and "0 < found_of body" and "totalNumPages body = Some n"
    and "sink_ok w"
    and "seen = pages_seen t k (earlier w1 k) [1..n]"
    and "\<forall>x \<in> set seen. \<not> is_failure (snd x)"
    and "i < length seen" and "seen ! i = (p, Response status data)" and "status \<noteq> 200"
  shows "\<exists>w'. process_postal t k w =
            (Inr (concat (map page_records (take i seen @ drop (Suc i) seen))), w')
      \<and> sent w' = sent w1 @ map (Get k) [1..n]
      \<and> sink_log w' = sink_log w
           @ concat (map (page_errors k) (take i seen @ drop (Suc i) seen))"
proof -
  from assms(7,8) have split: "seen = take i seen @ (p, Response status data) # drop (Suc i) seen"
    by (metis id_take_nth_drop)
  have r: "concat (map page_records seen)
             = concat (map page_records (take i seen @ drop (Suc i) seen))"
    using assms(9) by (subst split) simp
  have l: "concat (map (page_errors k) seen)
             = concat (map (page_errors k) (take i seen @ drop (Suc i) seen))"
    by (subst split) simp
  from process_postal_pages [OF assms(1-6)] r l show ?thesis by simp
qed

theorem page_non200_skipped_witness:
  "fst (process_postal
     (\<lambda>r c. if c = 2 then Response 503 \<lparr>found = None, totalNumPages = None, results = None\<rparr>
            else Response 200 \<lparr>found = Some 3, totalNumPages = Some 3,
                                results = Some [ [''BLK_NO'' \<mapsto> ''1''] ]\<rparr>)
     ''118411'' \<lparr>sink_ok = True, sink_log = [], sent = []\<rparr>)
   = Inr [building_of [''BLK_NO'' \<mapsto> ''1''], building_of [''BLK_NO'' \<mapsto> ''1'']]
   \<and> sink_log (snd (process_postal
     (\<lambda>r c. if c = 2 then Response 503 \<lparr>found = None, totalNumPages = None, results = None\<rparr>
            else Response 200 \<lparr>found = Some 3, totalNumPages = Some 3,
                                results = Some [ [''BLK_NO'' \<mapsto> ''1''] ]\<rparr>)
     ''118411'' \<lparr>sink_ok = True, sink_log = [], sent = []\<rparr>))
   = []
   \<and> sent (snd (process_postal
     (\<lambda>r c. if c = 2 then Response 503 \<lparr>found = None, totalNumPages = None, results = None\<rparr>
            else Response 200 \<lparr>found = Some 3, totalNumPages = Some 3,
                                results = Some [ [''BLK_NO'' \<mapsto> ''1''] ]\<rparr>)
     ''118411'' \<lparr>sink_ok = True, sink_log = [], sent = []\<rparr>))
   = [Get ''118411'' 1, Get ''118411'' 1, Get ''118411'' 2, Get ''118411'' 3]"
proof -
  let ?b = "\<lparr>found = Some 3, totalNumPages = Some 3, results = Some [ [''BLK_NO'' \<mapsto> ''1''] ]\<rparr>"
  let ?e = "\<lparr>found = None, totalNumPages = None, results = None\<rparr>"
  let ?t = "\<lambda>(r::request) (c::nat). if c = 2 then Response 503 ?e else Response 200 ?b"
  let ?w = "\<lparr>sink_ok = True, sink_log = [], sent = []\<rparr>"
  let ?w1 = "\<lparr>sink_ok = True, sink_log = [], sent = [Get ''118411'' 1]\<rparr>"
  let ?seen = "[(1, Response 200 ?b), (2, Response 503 ?e), (3, Response 200 ?b)]"
  have probe: "fetch_postal ?t ''118411'' 3 ?w = (Inr (Some ?b), ?w1)"
    by (simp add: fetch_postal_def upt_0_3 session_get_def earlier_def)
  have found: "0 < found_of ?b" by (simp add: found_of_def)
  have pages: "totalNumPages ?b = Some 3" by simp
  have ok: "sink_ok ?w" by simp
  have seen: "?seen = pages_seen ?t ''118411'' (earlier ?w1 ''118411'') [1..3]"
    by (simp add: upto.simps earlier_def)
  have nofail: "\<forall>x \<in> set ?seen. \<not> is_failure (snd x)" by simp
  have i: "1 < length ?seen" by simp
  have at: "?seen ! 1 = (2, Response 503 ?e)" by simp
  have st: "(503::nat) \<noteq> 200" by simp
  from page_non200_skipped [OF probe found pages ok seen nofail i at st]
  obtain w' where w': "process_postal ?t ''118411'' ?w =
            (Inr (concat (map page_records (take 1 ?seen @ drop (Suc 1) ?seen))), w')"
      "sent w' = sent ?w1 @ map (Get ''118411'') [1..3]"
      "sink_log w' = sink_log ?w
           @ concat (map (page_errors ''118411'') (take 1 ?seen @ drop (Suc 1) ?seen))"
    by blast
  from w' show ?thesis
    by (simp add: results_of_def upto.simps)
qed

section \<open>The whole run\<close>

lemma run_tasks_append:
  "run_tasks t (xs @ ys) w =
     (case run_tasks t xs w of
        (r1, w1) \<Rightarrow>
          (case run_tasks t ys w1 of
             (r2, w2) \<Rightarrow>
               (case r1 of
                  Inl e \<Rightarrow> (Inl e, w2)
                | Inr rs \<Rightarrow>
                    (case r2 of
                       Inl e \<Rightarrow> (Inl e, w2)
                     | Inr rs' \<Rightarrow> (Inr (rs @ rs'), w2)))))"
  by (induction xs arbitrary: w) (auto split: prod.splits sum.splits)

lemma run_tasks_length: "run_tasks t ks w = (Inr rs, w') \<Longrightarrow> length rs = length ks"
  by (induction ks arbitrary: w rs) (auto split: prod.splits sum.splits)

lemma flush_concat: "flush d completed = d @ concat completed"
  unfolding flush_def by (induction completed arbitrary: d) auto

lemma final_gather_loop:
  "(case run_tasks t (tasks s @ map snd xs) w of
      (Inl e, w1) \<Rightarrow> fst (final_gather t (download_loop t xs s w)) = Inl e
    | (Inr rs, w1) \<Rightarrow>
        (\<exists>s'. final_gather t (download_loop t xs s w) = (Inr s', w1)
            \<and> df s' = df s @ concat rs))"
proof (induction xs arbitrary: s w)
  case Nil
  show ?case
    by (auto simp: final_gather_def gather_def flush_concat split: prod.splits sum.splits)
next
  case (Cons x xs)
  obtain i k where x: "x = (i, k)" by (cases x)
  let ?s1 = "s\<lparr>tasks := tasks s @ [k], events := events s @ [Acquire, Create k, Release]\<rparr>"
  show ?case
  proof (cases "i mod 1000 = 0 \<and> i > 0")
    case False
    with x have step: "download_loop t (x # xs) s w = download_loop t xs ?s1 w"
      by (auto simp: Let_def)
    have app: "tasks s @ map snd (x # xs) = tasks ?s1 @ map snd xs"
      using x by simp
    from Cons.IH [of ?s1 w] show ?thesis
      unfolding app step by (auto split: prod.splits sum.splits)
  next
    case True
    have ra: "run_tasks t (tasks s @ map snd (x # xs)) w =
       (case run_tasks t (tasks s @ [k]) w of
          (r1, w1) \<Rightarrow>
            (case run_tasks t (map snd xs) w1 of
               (r2, w2) \<Rightarrow>
                 (case r1 of
                    Inl e \<Rightarrow> (Inl e, w2)
                  | Inr rs \<Rightarrow>
                      (case r2 of
                         Inl e \<Rightarrow> (Inl e, w2)
                       | Inr rs' \<Rightarrow> (Inr (rs @ rs'), w2)))))"
      using x run_tasks_append [of t "tasks s @ [k]" "map snd xs" w] by simp
    show ?thesis
    proof (cases "run_tasks t (tasks s @ [k]) w")
      case (Pair r w1)
      show ?thesis
      proof (cases r)
        case (Inl e)
        with Pair True x have step: "download_loop t (x # xs) s w = (Inl e, w1)"
          by (simp add: Let_def gather_def)
        show ?thesis
          unfolding ra step
          by (simp add: Pair Inl final_gather_def split: prod.splits)
      next
        case (Inr completed)
        let ?s2 = "?s1\<lparr>events := events ?s1 @ [Gather (tasks ?s1)],
                      df := flush (df s) completed, tasks := []\<rparr>"
        from Pair Inr True x
        have step: "download_loop t (x # xs) s w = download_loop t xs ?s2 w1"
          by (simp add: Let_def gather_def)
        from Cons.IH [of ?s2 w1] show ?thesis
          unfolding ra step
          by (auto simp: Pair Inr flush_concat split: prod.splits sum.splits)
      qed
    qed
  qed
qed

lemma map_snd_enumerate_keys: "map snd (enumerate i ks) = ks"
  by (induction ks arbitrary: i) auto

lemma log_error_frame:
  "log_error w k m = (r, w') \<Longrightarrow> sink_ok w' = sink_ok w \<and> sent w' = sent w"
  by (auto simp: log_error_def split: if_splits)

lemma log_error_indep:
  "sink_ok w = sink_ok v \<Longrightarrow> fst (log_error w k m) = fst (log_error v k m)"
  by (simp add: log_error_def)

lemma fetch_attempts_indep:
  "earlier w k = earlier v k \<Longrightarrow> sink_ok w = sink_ok v \<Longrightarrow>
   fst (fetch_attempts t k R as w) = fst (fetch_attempts t k R as v)
   \<and> earlier (snd (fetch_attempts t k R as w)) k = earlier (snd (fetch_attempts t k R as v)) k
   \<and> sink_ok (snd (fetch_attempts t k R as w)) = sink_ok (snd (fetch_attempts t k R as v))"
proof (induction as arbitrary: w v)
  case Nil
  then show ?case by simp
next
  case (Cons a as)
  let ?w1 = "w\<lparr>sent := sent w @ [Get k 1]\<rparr>"
  let ?v1 = "v\<lparr>sent := sent v @ [Get k 1]\<rparr>"
  let ?w2 = "?w1\<lparr>sink_log := sink_log ?w1 @ [error_line k ''Timeout after retries'']\<rparr>"
  let ?v2 = "?v1\<lparr>sink_log := sink_log ?v1 @ [error_line k ''Timeout after retries'']\<rparr>"
  from Cons.prems have a1: "earlier ?w1 k = earlier ?v1 k" "sink_ok ?w1 = sink_ok ?v1"
    and a2: "earlier ?w2 k = earlier ?v2 k" "sink_ok ?w2 = sink_ok ?v2"
    by simp_all
  from Cons.IH [OF a1] Cons.IH [OF a2] Cons.prems show ?case
    by (auto simp: session_get_def log_error_def split: outcome.splits)
qed

lemma fetch_pages_indep:
  "earlier w k = earlier v k \<Longrightarrow> sink_ok w = sink_ok v \<Longrightarrow>
   fst (fetch_pages t k ps recs w) = fst (fetch_pages t k ps recs v)"
proof (induction ps arbitrary: w v recs)
  case Nil
  then show ?case by simp
next
  case (Cons p ps)
  let ?w1 = "w\<lparr>sent := sent w @ [Get k p]\<rparr>"
  let ?v1 = "v\<lparr>sent := sent v @ [Get k p]\<rparr>"
  let ?w2 = "?w1\<lparr>sink_log := sink_log ?w1 @ [error_line k (''Page '' @ str_int p @ '' timeout'')]\<rparr>"
  let ?v2 = "?v1\<lparr>sink_log := sink_log ?v1 @ [error_line k (''Page '' @ str_int p @ '' timeout'')]\<rparr>"
  from Cons.prems have a1: "earlier ?w1 k = earlier ?v1 k" "sink_ok ?w1 = sink_ok ?v1"
    and a2: "earlier ?w2 k = earlier ?v2 k" "sink_ok ?w2 = sink_ok ?v2"
    by simp_all
  from Cons.IH [OF a1] Cons.IH [OF a2] Cons.prems show ?case
    by (auto simp: session_get_def log_error_def split: outcome.splits)
qed

lemma process_postal_indep:
  assumes "earlier w k = earlier v k" and "sink_ok w = sink_ok v"
  shows "fst (process_postal t k w) = fst (process_postal t k v)"
proof -
  from fetch_attempts_indep [OF assms, of t 3 "[0..<3]"]
  have f: "fst (fetch_postal t k 3 w) = fst (fetch_postal t k 3 v)"
    and e: "earlier (snd (fetch_postal t k 3 w)) k = earlier (snd (fetch_postal t k 3 v)) k"
    and o: "sink_ok (snd (fetch_postal t k 3 w)) = sink_ok (snd (fetch_postal t k 3 v))"
    by (simp_all add: fetch_postal_def)
  obtain r w1 where w: "fetch_postal t k 3 w = (r, w1)" by (cases "fetch_postal t k 3 w")
  obtain r' v1 where v: "fetch_postal t k 3 v = (r', v1)" by (cases "fetch_postal t k 3 v")
  from f e o w v have "r' = r" "earlier w1 k = earlier v1 k" "sink_ok w1 = sink_ok v1"
    by simp_all
  with w v fetch_pages_indep [of w1 k v1] show ?thesis
    by (auto simp: process_postal_def split: sum.splits option.splits)
qed

lemma fetch_attempts_frame:
  "fetch_attempts t k R as w = (r, w') \<Longrightarrow>
   sink_ok w' = sink_ok w \<and> (\<forall>k'. k' \<noteq> k \<longrightarrow> earlier w' k' = earlier w k')"
proof (induction as arbitrary: w)
  case Nil
  then show ?case by simp
next
  case (Cons a as)
  then show ?case
    by (auto simp: session_get_def log_error_def split: outcome.splits if_splits
        dest!: Cons.IH)
qed

lemma fetch_pages_frame:
  "fetch_pages t k ps recs w = (r, w') \<Longrightarrow>
   sink_ok w' = sink_ok w \<and> (\<forall>k'. k' \<noteq> k \<longrightarrow> earlier w' k' = earlier w k')"
proof (induction ps arbitrary: w recs)
  case Nil
  then show ?case by simp
next
  case (Cons p ps)
  then show ?case
    by (auto simp: session_get_def log_error_def split: outcome.splits if_splits
        dest!: Cons.IH)
qed

lemma process_postal_frame:
  assumes "process_postal t k w = (r, w')"
  shows "sink_ok w' = sink_ok w \<and> (\<forall>k'. k' \<noteq> k \<longrightarrow> earlier w' k' = earlier w k')"
proof -
  obtain r1 w1 where f: "fetch_postal t k 3 w = (r1, w1)" by (cases "fetch_postal t k 3 w")
  then have f1: "sink_ok w1 = sink_ok w \<and> (\<forall>k'. k' \<noteq> k \<longrightarrow> earlier w1 k' = earlier w k')"
    unfolding fetch_postal_def by (rule fetch_attempts_frame)
  from assms f f1 show ?thesis
    by (auto simp: process_postal_def split: sum.splits option.splits if_splits
        dest!: fetch_pages_frame)
qed

lemma run_tasks_independent:
  assumes "run_tasks t ks w = (Inr rs, w')" and "distinct ks"
    and "sink_ok v = sink_ok w" and "\<forall>k \<in> set ks. earlier w k = earlier v k"
  shows "map Inr rs = map (\<lambda>k. fst (process_postal t k v)) ks"
  using assms
proof (induction ks arbitrary: w rs)
  case Nil
  then show ?case by simp
next
  case (Cons k ks)
  from Cons.prems(1) obtain r w1 rs' where p: "process_postal t k w = (Inr r, w1)"
    and rest: "run_tasks t ks w1 = (Inr rs', w')" and rs: "rs = r # rs'"
    by (auto split: prod.splits sum.splits)
  from process_postal_frame [OF p] Cons.prems
  have "sink_ok v = sink_ok w1" "\<forall>k' \<in> set ks. earlier w1 k' = earlier v k'"
    by auto
  with Cons.IH [OF rest] Cons.prems(2)
  have "map Inr rs' = map (\<lambda>k. fst (process_postal t k v)) ks" by simp
  moreover from process_postal_indep [of w k v t] Cons.prems p
  have "fst (process_postal t k v) = Inr r" by simp
  ultimately show ?case using rs by simp
qed

text \<open>
  C4. Whenever \<open>download_data\<close> returns, its table holds the rows it started with
  followed by the result sets of all keys, in key order. These are the result sets one
  unbatched pass over the whole key space returns (and that pass leaves the same world),
  and the result set of each key is the one \<open>process_postal\<close> returns for that key on
  its own. So the number of rows added is the sum of the sizes of the per-key result
  sets, whatever the flush boundaries.
\<close>

theorem download_data_no_record_lost:
  assumes "download_data t d w = (Inr s, w')"
  shows "\<exists>rs. run_tasks t postal_codes w = (Inr rs, w')
      \<and> map Inr rs = map (\<lambda>k. fst (process_postal t k w)) postal_codes
      \<and> df s = d @ concat rs
      \<and> length (df s) = length d + sum_list (map length rs)"
proof -
  let ?s0 = "\<lparr>tasks = [], df = d, events = []\<rparr>"
  from final_gather_loop [where t = t and s = ?s0 and xs = "enumerate 0 postal_codes" and w = w] assms
  obtain rs where rs: "run_tasks t postal_codes w = (Inr rs, w')" "df s = d @ concat rs"
    by (auto simp: download_data_def map_snd_enumerate_keys split: prod.splits sum.splits)
  from run_tasks_independent [OF rs(1) postal_codes_distinct, of w]
  have "map Inr rs = map (\<lambda>k. fst (process_postal t k w)) postal_codes" by simp
  with rs show ?thesis
    by (simp add: length_concat)
qed

lemma process_postal_one_record:
  "process_postal
     (\<lambda>r c. Response 200 \<lparr>found = Some 1, totalNumPages = Some 1, results = Some [Map.empty]\<rparr>)
     k w
   = (Inr [building_of Map.empty], w\<lparr>sent := sent w @ [Get k 1, Get k 1]\<rparr>)"
  by (simp add: process_postal_def fetch_postal_def upt_0_3 session_get_def found_of_def
      upto.simps results_of_def)

lemma run_tasks_one_record:
  "run_tasks
     (\<lambda>r c. Response 200 \<lparr>found = Some 1, totalNumPages = Some 1, results = Some [Map.empty]\<rparr>)
     ks w
   = (Inr (map (\<lambda>k. [building_of Map.empty]) ks),
      w\<lparr>sent := sent w @ concat (map (\<lambda>k. [Get k 1, Get k 1]) ks)\<rparr>)"
  by (induction ks arbitrary: w) (simp_all add: process_postal_one_record)

lemma download_data_one_record:
  "\<exists>s. download_data
     (\<lambda>r c. Response 200 \<lparr>found = Some 1, totalNumPages = Some 1, results = Some [Map.empty]\<rparr>)
     d w
   = (Inr s, w\<lparr>sent := sent w @ concat (map (\<lambda>k. [Get k 1, Get k 1]) postal_codes)\<rparr>)"
proof -
  let ?t = "\<lambda>(r::request) (c::nat).
    Response 200 \<lparr>found = Some 1, totalNumPages = Some 1, results = Some [Map.empty]\<rparr>"
  let ?s0 = "\<lparr>tasks = [], df = d, events = []\<rparr>"
  from final_gather_loop [where t = ?t and s = ?s0 and xs = "enumerate 0 postal_codes" and w = w] show ?thesis
    by (auto simp: download_data_def map_snd_enumerate_keys run_tasks_one_record)
qed

theorem download_data_no_record_lost_witness:
  "\<exists>s w'. download_data
     (\<lambda>r c. Response 200 \<lparr>found = Some 1, totalNumPages = Some 1, results = Some [Map.empty]\<rparr>)
     [] \<lparr>sink_ok = True, sink_log = [], sent = []\<rparr> = (Inr s, w')
   \<and> length (df s) = 820000"
proof -
  let ?t = "\<lambda>(r::request) (c::nat).
    Response 200 \<lparr>found = Some 1, totalNumPages = Some 1, results = Some [Map.empty]\<rparr>"
  let ?w = "\<lparr>sink_ok = True, sink_log = [], sent = []\<rparr>"
  from download_data_one_record [of "[]" ?w] obtain s w'
    where run: "download_data ?t [] ?w = (Inr s, w')" by blast
  from download_data_no_record_lost [OF run] obtain rs
    where rs: "run_tasks ?t postal_codes ?w = (Inr rs, w')"
      "length (df s) = length ([]::building list) + sum_list (map length rs)" by blast
  from rs(1) have "rs = map (\<lambda>k. [building_of Map.empty]) postal_codes"
    by (simp add: run_tasks_one_record)
  then have "sum_list (map length rs) = length postal_codes"
    by (simp add: comp_def sum_list_triv)
  with rs(2) have "length (df s) = 820000"
    by (simp add: postal_codes_def)
  with run show ?thesis by blast
qed

lemma postal_codes_first: "postal_codes = ''010000'' # map fmt06 [10001..<830000]"
proof -
  have f: "fmt06 10000 = ''010000''"
    by (simp add: fmt06_def str_nat.simps digit_char_def)
  have "[10000..<830000] = 10000 # [Suc 10000..<830000]"
    by (rule upt_conv_Cons) simp
  moreover have "Suc 10000 = 10001" by simp
  ultimately have "[10000..<830000] = 10000 # [10001..<830000]" by simp
  then show ?thesis by (simp add: postal_codes_def f)
qed

lemma run_tasks_sink_log:
  assumes "\<And>k w. sink_log (snd (process_postal t k w)) = sink_log w"
  shows "sink_log (snd (run_tasks t ks w)) = sink_log w"
proof (induction ks arbitrary: w)
  case Nil
  show ?case by simp
next
  case (Cons k ks)
  from assms [of k w] Cons.IH [of "snd (process_postal t k w)"] show ?case
    by (auto split: prod.splits sum.splits)
qed

lemma gather_sink_log:
  assumes "\<And>k w. sink_log (snd (process_postal t k w)) = sink_log w"
  shows "sink_log (snd (gather t s w)) = sink_log w"
  using run_tasks_sink_log [of t "tasks s" w, OF assms]
  by (auto simp: gather_def Let_def split: prod.splits sum.splits)

lemma download_loop_sink_log:
  assumes "\<And>k w. sink_log (snd (process_postal t k w)) = sink_log w"
  shows "sink_log (snd (download_loop t xs s w)) = sink_log w"
proof (induction xs arbitrary: s w)
  case Nil
  show ?case by simp
next
  case (Cons x xs)
  obtain i k where x: "x = (i, k)" by (cases x)
  let ?s1 = "s\<lparr>tasks := tasks s @ [k], events := events s @ [Acquire, Create k, Release]\<rparr>"
  from gather_sink_log [of t ?s1 w, OF assms] Cons.IH x show ?case
    by (auto simp: Let_def split: prod.splits sum.splits)
qed

lemma download_data_sink_log:
  assumes "\<And>k w. sink_log (snd (process_postal t k w)) = sink_log w"
  shows "sink_log (snd (download_data t d w)) = sink_log w"
proof -
  let ?r = "download_loop t (enumerate 0 postal_codes) \<lparr>tasks = [], df = d, events = []\<rparr> w"
  from download_loop_sink_log [of t "enumerate 0 postal_codes" _ w, OF assms]
  have l: "sink_log (snd ?r) = sink_log w" .
  show ?thesis
  proof (cases ?r)
    case (Pair r w1)
    with l gather_sink_log [of t _ w1, OF assms] show ?thesis
      by (auto simp: download_data_def final_gather_def split: sum.splits)
  qed
qed

text \<open>
  C2 fails on the code. The transport answers every request for page 1 with status 200,
  one record found on two pages, and breaks the connection on every request for another
  page. The probe and page 1 of every key succeed; the request for page 2 raises, the
  page loop does not catch it, and the first batch ends the run with that exception.
  Nothing is written to the error log and no table is produced.
\<close>

theorem download_data_page_error_aborts:
  "fst (download_data
     (\<lambda>r c. if req_page r = 1
            then Response 200 \<lparr>found = Some 1, totalNumPages = Some 2, results = Some []\<rparr>
            else Failure ''Connection reset by peer'')
     [] \<lparr>sink_ok = True, sink_log = [], sent = []\<rparr>)
   = Inl (TransportError ''Connection reset by peer'')
   \<and> sink_log (snd (download_data
     (\<lambda>r c. if req_page r = 1
            then Response 200 \<lparr>found = Some 1, totalNumPages = Some 2, results = Some []\<rparr>
            else Failure ''Connection reset by peer'')
     [] \<lparr>sink_ok = True, sink_log = [], sent = []\<rparr>))
   = []"
proof -
  let ?t = "\<lambda>(r::request) (c::nat). if req_page r = 1
            then Response 200 \<lparr>found = Some 1, totalNumPages = Some 2, results = Some []\<rparr>
            else Failure ''Connection reset by peer''"
  let ?w = "\<lparr>sink_ok = True, sink_log = [], sent = []\<rparr>"
  let ?s0 = "\<lparr>tasks = [], df = [], events = []\<rparr>"
  have p: "process_postal ?t k w
      = (Inl (TransportError ''Connection reset by peer''),
         w\<lparr>sent := sent w @ [Get k 1, Get k 1, Get k 2]\<rparr>)" for k w
    by (simp add: process_postal_def fetch_postal_def upt_0_3 session_get_def found_of_def
        upto.simps results_of_def)
  have "fst (run_tasks ?t postal_codes ?w) = Inl (TransportError ''Connection reset by peer'')"
    unfolding postal_codes_first by (simp add: p split: prod.splits)
  with final_gather_loop [where t = ?t and s = ?s0 and xs = "enumerate 0 postal_codes" and w = ?w]
  have a: "fst (download_data ?t [] ?w) = Inl (TransportError ''Connection reset by peer'')"
    by (auto simp: download_data_def map_snd_enumerate_keys split: prod.splits sum.splits)
  have "sink_log (snd (process_postal ?t k w)) = sink_log w" for k w
    by (simp add: p)
  from download_data_sink_log [of ?t "[]" ?w, OF this]
  have b: "sink_log (snd (download_data ?t [] ?w)) = []" by simp
  from a b show ?thesis by blast
qed

section \<open>The admission gate\<close>

lemma gather_events:
  "gather t s w = (Inr s', w') \<Longrightarrow> events s' = events s @ [Gather (tasks s)]"
  by (auto simp: gather_def Let_def split: prod.splits sum.splits)

lemma download_loop_events:
  "download_loop t xs s w = (Inr s', w') \<Longrightarrow> \<exists>es. events s' = events s @ es"
proof (induction xs arbitrary: s w)
  case Nil
  then show ?case by simp
next
  case (Cons x xs)
  obtain i k where x: "x = (i, k)" by (cases x)
  let ?s1 = "s\<lparr>tasks := tasks s @ [k], events := events s @ [Acquire, Create k, Release]\<rparr>"
  show ?case
  proof (cases "i mod 1000 = 0 \<and> i > 0")
    case False
    with x Cons.prems have "download_loop t xs ?s1 w = (Inr s', w')"
      by (auto simp: Let_def)
    from Cons.IH [OF this] show ?thesis by auto
  next
    case True
    with x Cons.prems obtain s2 w1 where g: "gather t ?s1 w = (Inr s2, w1)"
      and l: "download_loop t xs (s2\<lparr>tasks := []\<rparr>) w1 = (Inr s', w')"
      by (auto simp: Let_def split: prod.splits sum.splits)
    from Cons.IH [OF l] gather_events [OF g] show ?thesis by auto
  qed
qed

lemma final_gather_events:
  "final_gather t (Inr s, w) = (Inr s', w') \<Longrightarrow> \<exists>es. events s' = events s @ es"
  by (auto simp: final_gather_def dest: gather_events split: if_splits)

lemma download_loop_first_gather:
  assumes "i \<le> 1000" and "1000 < i + length ks"
    and "download_loop t (enumerate i ks) s w = (Inr s', w')"
  shows "\<exists>es. events s' =
      events s @ concat (map (\<lambda>k. [Acquire, Create k, Release]) (take (1001 - i) ks))
        @ Gather (tasks s @ take (1001 - i) ks) # es"
  using assms
proof (induction ks arbitrary: i s w)
  case Nil
  then show ?case by simp
next
  case (Cons k ks)
  let ?s1 = "s\<lparr>tasks := tasks s @ [k], events := events s @ [Acquire, Create k, Release]\<rparr>"
  show ?case
  proof (cases "i = 1000")
    case True
    with Cons.prems obtain s2 w1 where g: "gather t ?s1 w = (Inr s2, w1)"
      and l: "download_loop t (enumerate 1001 ks) (s2\<lparr>tasks := []\<rparr>) w1 = (Inr s', w')"
      by (auto simp: Let_def split: prod.splits sum.splits)
    from download_loop_events [OF l] gather_events [OF g] True show ?thesis by auto
  next
    case False
    with Cons.prems have i: "i < 1000" by simp
    then have nf: "\<not> (i mod 1000 = 0 \<and> i > 0)" by auto
    with Cons.prems have l: "download_loop t (enumerate (Suc i) ks) ?s1 w = (Inr s', w')"
      by (auto simp: Let_def)
    from i Cons.prems have a: "Suc i \<le> 1000" "1000 < Suc i + length ks" by simp_all
    from i have t: "1001 - i = Suc (1001 - Suc i)" by simp
    from Cons.IH [OF a l] show ?thesis
      unfolding t by auto
  qed
qed

lemma gate_at_gathers_admissions:
  "gate_at_gathers h (concat (map (\<lambda>k. [Acquire, Create k, Release]) ks) @ es)
     = gate_at_gathers h es"
  by (induction ks) auto

lemma download_data_first_gather:
  assumes "download_data t d w = (Inr s, w')"
  shows "\<exists>rest. gate_at_gathers 0 (events s) = (0, 1001) # rest"
proof -
  let ?s0 = "\<lparr>tasks = [], df = d, events = []\<rparr>"
  obtain r w1 where loop: "download_loop t (enumerate 0 postal_codes) ?s0 w = (r, w1)"
    by (cases "download_loop t (enumerate 0 postal_codes) ?s0 w")
  with assms obtain s1 where r: "r = Inr s1" and fin: "final_gather t (Inr s1, w1) = (Inr s, w')"
    by (cases r) (auto simp: download_data_def final_gather_def)
  have len: "1000 < 0 + length postal_codes"
    by (simp add: postal_codes_def)
  from download_loop_first_gather [OF _ len loop [unfolded r]]
  obtain es where es: "events s1 =
      concat (map (\<lambda>k. [Acquire, Create k, Release]) (take 1001 postal_codes))
        @ Gather (take 1001 postal_codes) # es"
    by auto
  from final_gather_events [OF fin] obtain es' where "events s = events s1 @ es'" by blast
  with es have "events s =
      concat (map (\<lambda>k. [Acquire, Create k, Release]) (take 1001 postal_codes))
        @ (Gather (take 1001 postal_codes) # es @ es')"
    by simp
  then have "gate_at_gathers 0 (events s)
      = (0, length (take 1001 postal_codes)) # gate_at_gathers 0 (es @ es')"
    by (simp only: gate_at_gathers_admissions gate_at_gathers.simps)
  moreover have "length (take 1001 postal_codes) = 1001"
    by (simp add: postal_codes_def)
  ultimately show ?thesis by simp
qed

text \<open>
  C1 fails on the code. The admission gate is acquired and released around the creation
  of each coroutine object, which starts nothing; the operations start only when
  \<^verbatim>\<open>asyncio.gather\<close> is called on the pending list. In a run where every request
  succeeds, the first call of \<^verbatim>\<open>asyncio.gather\<close> starts 1001 operations at once
  while no permit of the gate is held.
\<close>

theorem download_data_gate_not_held:
  "take 1 (gate_of_run (download_data
     (\<lambda>r c. Response 200 \<lparr>found = Some 1, totalNumPages = Some 1, results = Some [Map.empty]\<rparr>)
     [] \<lparr>sink_ok = True, sink_log = [], sent = []\<rparr>))
   = [(0, 1001)]"
proof -
  let ?t = "\<lambda>(r::request) (c::nat).
    Response 200 \<lparr>found = Some 1, totalNumPages = Some 1, results = Some [Map.empty]\<rparr>"
  let ?w = "\<lparr>sink_ok = True, sink_log = [], sent = []\<rparr>"
  from download_data_one_record [of "[]" ?w] obtain s w'
    where run: "download_data ?t [] ?w = (Inr s, w')" by blast
  from download_data_first_gather [OF run] obtain rest
    where "gate_at_gathers 0 (events s) = (0, 1001) # rest" by blast
  with run show ?thesis by (simp add: gate_of_run_def)
qed

section \<open>The error sink and the output columns\<close>

lemma fetch_postal_writable_returns:
  assumes "sink_ok w"
  shows "\<exists>r. fst (fetch_postal t k R w) = Inr r"
proof (cases "0 < R")
  case False
  then show ?thesis by (simp add: fetch_postal_def)
next
  case True
  obtain res w' where f: "fetch_attempts t k R [0..<R] w = (res, w')"
    by (cases "fetch_attempts t k R [0..<R] w")
  from fetch_attempts_outcome [OF f True] assms have "\<exists>r. res = Inr r"
    by (auto split: outcome.splits if_splits)
  with f show ?thesis by (simp add: fetch_postal_def)
qed

lemma fetch_pages_writable:
  "sink_ok w \<Longrightarrow> fst (fetch_pages t k ps recs w) \<noteq> Inl (OSError m)"
proof (induction ps arbitrary: recs w)
  case Nil
  then show ?case by simp
next
  case (Cons p ps)
  then show ?case
    by (auto simp: session_get_def log_error_def split: outcome.splits)
qed

lemma process_postal_writable:
  assumes "sink_ok w"
  shows "fst (process_postal t k w) \<noteq> Inl (OSError m)"
proof -
  obtain res w1 where f: "fetch_postal t k 3 w = (res, w1)"
    by (cases "fetch_postal t k 3 w")
  from fetch_postal_writable_returns [OF assms, of t k 3] f obtain r where r: "res = Inr r"
    by auto
  from fetch_postal_sink_ok [OF f] assms have "sink_ok w1" by simp
  from fetch_pages_writable [OF this] f r show ?thesis
    by (auto simp: process_postal_def split: option.splits)
qed

text \<open>
  C9, as stated, fails: when the file system refuses the write, \<open>log_error\<close> raises
  \<open>OSError\<close> to its caller, the exception leaves \<open>process_postal\<close>, and the run is
  aborted by it.
\<close>

theorem log_error_raises_counterexample:
  "log_error \<lparr>sink_ok = False, sink_log = [], sent = []\<rparr> ''010000'' ''HTTP 500''
     = (Inl (OSError ''error_log.txt''), \<lparr>sink_ok = False, sink_log = [], sent = []\<rparr>)
   \<and> fst (process_postal (\<lambda>r n. Response 500 \<lparr>found = None, totalNumPages = None, results = None\<rparr>)
            ''010000'' \<lparr>sink_ok = False, sink_log = [], sent = []\<rparr>)
     = Inl (OSError ''error_log.txt'')
   \<and> fst (download_data (\<lambda>r n. Response 500 \<lparr>found = None, totalNumPages = None, results = None\<rparr>)
            [] \<lparr>sink_ok = False, sink_log = [], sent = []\<rparr>)
     = Inl (OSError ''error_log.txt'')"
proof -
  let ?t = "\<lambda>(r::request) (n::nat).
    Response 500 \<lparr>found = None, totalNumPages = None, results = None\<rparr>"
  let ?w = "\<lparr>sink_ok = False, sink_log = [], sent = []\<rparr>"
  let ?s0 = "\<lparr>tasks = [], df = [], events = []\<rparr>"
  have l: "log_error ?w ''010000'' ''HTTP 500'' = (Inl (OSError ''error_log.txt''), ?w)"
    by (simp add: log_error_def)
  have p: "fst (process_postal ?t ''010000'' ?w) = Inl (OSError ''error_log.txt'')"
    by (simp add: log_error_def process_postal_def fetch_postal_def upt_0_3 session_get_def)
  then have "fst (run_tasks ?t postal_codes ?w) = Inl (OSError ''error_log.txt'')"
    unfolding postal_codes_first by (auto split: prod.splits sum.splits)
  with final_gather_loop [where t = ?t and s = ?s0 and xs = "enumerate 0 postal_codes" and w = ?w]
  have "fst (download_data ?t [] ?w) = Inl (OSError ''error_log.txt'')"
    by (auto simp: download_data_def map_snd_enumerate_keys split: prod.splits sum.splits)
  with l p show ?thesis by blast
qed

text \<open>
  C9, amended. \<open>log_error\<close> never blocks the scheduler: it issues no request, and the
  requests are the only points where an operation waits. When the write to the log
  file succeeds, it returns normally, having appended exactly the line
  \<open>Error with postal code KEY: REASON\<close>, and then no operation is ended by an error of
  the sink. When the file system refuses the write, \<open>log_error\<close> raises \<open>OSError\<close> to
  its caller and no line is added.
\<close>

theorem log_error_returns_or_raises:
  "sent (snd (log_error w k e)) = sent w
   \<and> (sink_ok w \<longrightarrow>
        log_error w k e = (Inr (), w\<lparr>sink_log := sink_log w @ [error_line k e]\<rparr>)
        \<and> (\<forall>t m. fst (process_postal t k w) \<noteq> Inl (OSError m)))
   \<and> (\<not> sink_ok w \<longrightarrow> log_error w k e = (Inl (OSError ''error_log.txt''), w))"
  using process_postal_writable [of w] by (simp add: log_error_def)

theorem log_error_returns_or_raises_witness:
  "log_error \<lparr>sink_ok = True, sink_log = [], sent = []\<rparr> ''010000'' ''HTTP 500''
     = (Inr (), \<lparr>sink_ok = True, sink_log = [''Error with postal code 010000: HTTP 500''], sent = []\<rparr>)
   \<and> log_error \<lparr>sink_ok = False, sink_log = [], sent = []\<rparr> ''010000'' ''HTTP 500''
     = (Inl (OSError ''error_log.txt''), \<lparr>sink_ok = False, sink_log = [], sent = []\<rparr>)"
  using log_error_returns_or_raises
      [of "\<lparr>sink_ok = True, sink_log = [], sent = []\<rparr>" "''010000''" "''HTTP 500''"]
    log_error_returns_or_raises
      [of "\<lparr>sink_ok = False, sink_log = [], sent = []\<rparr>" "''010000''" "''HTTP 500''"]
  by (simp add: error_line_def)

text \<open>
  C6, as stated, fails: the columns of the table and the keys of every record are not
  \<open>block_number, street, postal_code, name, latitude, longitude\<close>.
\<close>

theorem output_columns_counterexample:
  "df_columns \<noteq> [''block_number'', ''street'', ''postal_code'', ''name'', ''latitude'', ''longitude'']
   \<and> map fst (building_of Map.empty)
       \<noteq> [''block_number'', ''street'', ''postal_code'', ''name'', ''latitude'', ''longitude'']"
  by (simp add: df_columns_def building_of_def)

text \<open>
  C6, amended. The table has exactly the columns \<open>blk_no, street, postal_code, name, lat,
  lon\<close>; every record has exactly these keys, in this order, and their values are the raw
  fields \<open>BLK_NO, ROAD_NAME, POSTAL, BUILDING, LATITUDE, LONGITUDE\<close> respectively, an
  absent raw field giving the empty string.
\<close>

theorem building_of_columns:
  "df_columns = [''blk_no'', ''street'', ''postal_code'', ''name'', ''lat'', ''lon'']
   \<and> map fst (building_of item) = df_columns
   \<and> map snd (building_of item)
       = map (\<lambda>name. case item name of None \<Rightarrow> [] | Some v \<Rightarrow> v)
           [''BLK_NO'', ''ROAD_NAME'', ''POSTAL'', ''BUILDING'', ''LATITUDE'', ''LONGITUDE'']"
  by (simp add: df_columns_def building_of_def item_get_def)

end
